theory Spec2Isabelle
  imports Main
begin

section \<open>JavaScript values and user callbacks\<close>

text \<open>
  The container stores values of type \<open>unknown\<close>. What the code asks of a value is its
  identity and, in \<open>if (existing)\<close>, its truthiness. Numbers are the integer-valued ones;
  an object is its reference.
\<close>

datatype jsval = JUndefined | JNull | JBool bool | JNum int | JStr string | JObj nat

fun truthy :: "jsval \<Rightarrow> bool" where
  "truthy JUndefined = False"
| "truthy JNull = False"
| "truthy (JBool b) = b"
| "truthy (JNum n) = (n \<noteq> 0)"
| "truthy (JStr s) = (s \<noteq> [])"
| "truthy (JObj r) = True"

text \<open>
  A \<open>Symbol(description)\<close> is a fresh identity together with its description. The first
  component is the identity the realm allocated; two symbols are the same symbol exactly
  when their identities agree.
\<close>

datatype symbol = Symbol nat string

record injection_token =
  key :: symbol

text \<open>
  \<open>token = (description) => ({ key: Symbol(description) })\<close>. The realm's supply of
  fresh symbols is threaded through as a counter.
\<close>

definition token :: "string \<Rightarrow> nat \<Rightarrow> injection_token \<times> nat" where
  "token description n = (\<lparr>key = Symbol n description\<rparr>, Suc n)"

text \<open>A sequence of \<open>token\<close> calls, one per label, in order.\<close>

fun tokens :: "string list \<Rightarrow> nat \<Rightarrow> injection_token list \<times> nat" where
  "tokens [] n = ([], n)"
| "tokens (d # ds) n =
     (let (t, n') = token d n; (ts, n'') = tokens ds n' in (t # ts, n''))"

text \<open>
  How a promise ends. A thrown value and a rejection reason are arbitrary values.
\<close>

datatype outcome = Fulfilled jsval | Rejected jsval

text \<open>
  A creation function is user code: it may count its own invocations (as the test's
  \<open>if (++attempt === 1) throw\<close> does), so its result is a function of the number of
  times it has been invoked before. It is named, so that invocations can be counted as
  \<open>vi.fn\<close> counts them. Whether it returns a value or a promise of one only changes when
  the outcome arrives, and the arrival is a step of its own below. \<open>Constantly v\<close> is
  an anonymous closure \<open>() => v\<close>, which nobody counts.
\<close>

datatype factory = Factory nat "nat \<Rightarrow> outcome" | Constantly jsval

fun fid :: "factory \<Rightarrow> nat option" where
  "fid (Factory i b) = Some i"
| "fid (Constantly v) = None"

fun body :: "factory \<Rightarrow> nat \<Rightarrow> outcome" where
  "body (Factory i b) n = b n"
| "body (Constantly v) n = Fulfilled v"

text \<open>
  A dispose function \<open>(value) => Promise<void> | void\<close> returns (nothing, or a promise
  that fulfils), throws while it is being called, or returns a promise that rejects.
\<close>

datatype dres = DReturns | DThrows jsval | DRejects jsval

datatype disposeFn = DisposeFn nat "jsval \<Rightarrow> dres"

fun did :: "disposeFn \<Rightarrow> nat" where
  "did (DisposeFn i b) = i"

fun dbody :: "disposeFn \<Rightarrow> jsval \<Rightarrow> dres" where
  "dbody (DisposeFn i b) = b"

section \<open>The container without a registration step\<close>

text \<open>
  \<open>singletons = new Map<symbol, unknown>()\<close> holds, per key, either the promise of a
  creation in flight or the created value. \<open>disposers\<close> holds the closures
  \<open>() => opts.dispose(v)\<close>, each a dispose function with the value it closes over.
\<close>

datatype cell = CPromise nat | CValue jsval

fun truthy_cell :: "cell \<Rightarrow> bool" where
  "truthy_cell (CPromise p) = True"
| "truthy_cell (CValue v) = truthy v"

record container =
  singletons :: "symbol \<rightharpoonup> cell"
  disposers :: "(disposeFn \<times> jsval) list"

text \<open>
  The promise \<open>creation\<close> built by \<open>resolve\<close>:
  \<open>Promise.resolve().then(factory).then(v => ...).catch(e => ...)\<close>. It remembers the
  container (\<open>this\<close>), the key, the factory and the options its handlers close over.
  It is \<open>Queued\<close> until the job that calls the factory runs, \<open>Invoked\<close> once the factory
  has been called and until its outcome reaches the handlers, and \<open>Settled\<close> after the
  \<open>then\<close> or the \<open>catch\<close> handler has run.
\<close>

datatype stage = Queued | Invoked outcome | Settled outcome

record creation =
  owner :: nat
  ckey :: symbol
  cfactory :: factory
  copts :: "disposeFn option"
  cstage :: stage

text \<open>
  The program state: the containers (a container reference is its index), the creation
  promises (a promise reference is its index), the creations whose factory has been
  called, in call order, the calls of dispose functions with their argument, in call
  order, and the \<open>disposeAll\<close> calls suspended at their \<open>await\<close>.
\<close>

record world =
  heap :: "container list"
  promises :: "creation list"
  invoked :: "nat list"
  disposed :: "(nat \<times> jsval) list"
  suspended :: "nat list"

definition new_Container :: container where
  "new_Container = \<lparr>singletons = Map.empty, disposers = []\<rparr>"

definition init_world :: world where
  "init_world = \<lparr>heap = [new_Container], promises = [], invoked = [], disposed = [], suspended = []\<rparr>"

text \<open>How often the factory named \<open>i\<close> has been called.\<close>

definition calls :: "world \<Rightarrow> nat \<Rightarrow> nat" where
  "calls w i = length (filter (\<lambda>p. fid (cfactory (promises w ! p)) = Some i) (invoked w))"

text \<open>Calling a factory: its result on this call, given the calls before.\<close>

definition call :: "world \<Rightarrow> factory \<Rightarrow> outcome" where
  "call w f = body f (case fid f of None \<Rightarrow> 0 | Some i \<Rightarrow> calls w i)"

text \<open>\<open>Map.get\<close> gives \<open>undefined\<close> for a key that is not there.\<close>

definition map_get :: "(symbol \<rightharpoonup> cell) \<Rightarrow> symbol \<Rightarrow> cell" where
  "map_get m k = (case m k of None \<Rightarrow> CValue JUndefined | Some c \<Rightarrow> c)"

text \<open>
  The second half of \<open>resolve\<close>: build the promise chain, whose first job is queued,
  \<open>this.singletons.set(t.key, creation)\<close>, \<open>return creation\<close>.
\<close>

definition install :: "nat \<Rightarrow> symbol \<Rightarrow> factory \<Rightarrow> disposeFn option \<Rightarrow> world \<Rightarrow> cell \<times> world" where
  "install this k f opts w =
     (let p = length (promises w);
          c = heap w ! this
      in (CPromise p,
          w\<lparr>promises := promises w @
                [\<lparr>owner = this, ckey = k, cfactory = f, copts = opts, cstage = Queued\<rparr>],
            heap := (heap w)[this := c\<lparr>singletons := (singletons c)(k \<mapsto> CPromise p)\<rparr>]\<rparr>))"

text \<open>
  \<open>resolve(t, factory, opts)\<close>. The function is \<open>async\<close>: the caller receives a promise
  that is resolved with what the body returns, which is the first component here.
\<close>

definition resolve :: "nat \<Rightarrow> injection_token \<Rightarrow> factory \<Rightarrow> disposeFn option \<Rightarrow> world \<Rightarrow> cell \<times> world" where
  "resolve this t f opts w =
     (let existing = map_get (singletons (heap w ! this)) (key t)
      in if truthy_cell existing then (existing, w)
         else install this (key t) f opts w)"

text \<open>The job queued by \<open>Promise.resolve().then(factory)\<close>: the factory is called.\<close>

definition invoke :: "nat \<Rightarrow> world \<Rightarrow> world option" where
  "invoke p w =
     (if p < length (promises w) then
        (let cr = promises w ! p; f = cfactory cr in
         case cstage cr of
           Queued \<Rightarrow>
             Some (w\<lparr>promises := (promises w)[p := cr\<lparr>cstage := Invoked (call w f)\<rparr>],
                     invoked := invoked w @ [p]\<rparr>)
         | _ \<Rightarrow> None)
      else None)"

text \<open>
  The handler \<open>v => { this.singletons.set(t.key, v);
  if (opts.dispose) this.disposers.push(() => opts.dispose!(v)); return v; }\<close>.
\<close>

definition on_fulfilled :: "creation \<Rightarrow> jsval \<Rightarrow> container \<Rightarrow> container" where
  "on_fulfilled cr v c =
     c\<lparr>singletons := (singletons c)(ckey cr \<mapsto> CValue v),
       disposers := (case copts cr of None \<Rightarrow> disposers c | Some d \<Rightarrow> disposers c @ [(d, v)])\<rparr>"

text \<open>The handler \<open>e => { this.singletons.delete(t.key); throw e; }\<close>.\<close>

definition on_rejected :: "creation \<Rightarrow> container \<Rightarrow> container" where
  "on_rejected cr c = c\<lparr>singletons := (singletons c)(ckey cr := None)\<rparr>"

text \<open>
  The factory's outcome reaches the handlers: the \<open>then\<close> handler runs on a value, the
  \<open>catch\<close> handler on a failure, and the promise \<open>creation\<close> settles accordingly.
  (After the \<open>then\<close> handler, \<open>creation\<close> is fulfilled one job later, through the
  \<open>catch\<close> that has nothing to do; the container does nothing in between, and this is
  one step here.)
\<close>

definition settle :: "nat \<Rightarrow> world \<Rightarrow> world option" where
  "settle p w =
     (if p < length (promises w) then
        (let cr = promises w ! p; this = owner cr; c = heap w ! this in
         case cstage cr of
           Invoked (Fulfilled v) \<Rightarrow>
             Some (w\<lparr>heap := (heap w)[this := on_fulfilled cr v c],
                     promises := (promises w)[p := cr\<lparr>cstage := Settled (Fulfilled v)\<rparr>]\<rparr>)
         | Invoked (Rejected e) \<Rightarrow>
             Some (w\<lparr>heap := (heap w)[this := on_rejected cr c],
                     promises := (promises w)[p := cr\<lparr>cstage := Settled (Rejected e)\<rparr>]\<rparr>)
         | _ \<Rightarrow> None)
      else None)"

text \<open>What an awaiter of a handle returned by \<open>resolve\<close> has observed so far.\<close>

definition observe :: "world \<Rightarrow> cell \<Rightarrow> outcome option" where
  "observe w h =
     (case h of
        CValue v \<Rightarrow> Some (Fulfilled v)
      | CPromise p \<Rightarrow> (case cstage (promises w ! p) of Settled oc \<Rightarrow> Some oc | _ \<Rightarrow> None))"

text \<open>
  \<open>this.disposers.map(fn => fn())\<close>: the closures are called one after the other while
  the array is being mapped. A closure that throws ends the mapping, and the exception
  leaves \<open>map\<close>. The result is the log of dispose calls and the exception, if any.
\<close>

fun map_call :: "(disposeFn \<times> jsval) list \<Rightarrow> (nat \<times> jsval) list \<Rightarrow> (nat \<times> jsval) list \<times> jsval option" where
  "map_call [] log = (log, None)"
| "map_call ((d, v) # fns) log =
     (case dbody d v of
        DThrows e \<Rightarrow> (log @ [(did d, v)], Some e)
      | _ \<Rightarrow> map_call fns (log @ [(did d, v)]))"

text \<open>
  \<open>disposeAll\<close> up to its \<open>await\<close>. With an exception out of \<open>map\<close> the call is over,
  rejected with it; otherwise the call is suspended until the promises have settled.
\<close>

definition disposeAll_begin :: "nat \<Rightarrow> world \<Rightarrow> jsval option \<times> world" where
  "disposeAll_begin this w =
     (case map_call (disposers (heap w ! this)) (disposed w) of
        (log, Some e) \<Rightarrow> (Some e, w\<lparr>disposed := log\<rparr>)
      | (log, None) \<Rightarrow> (None, w\<lparr>disposed := log, suspended := suspended w @ [this]\<rparr>))"

text \<open>
  \<open>disposeAll\<close> after its \<open>await\<close>: \<open>this.singletons.clear(); this.disposers = []\<close>.
\<close>

definition disposeAll_resume :: "nat \<Rightarrow> world \<Rightarrow> world option" where
  "disposeAll_resume this w =
     (if this \<in> set (suspended w) then
        Some (w\<lparr>heap := (heap w)[this := (heap w ! this)\<lparr>singletons := Map.empty, disposers := []\<rparr>],
                suspended := remove1 this (suspended w)\<rparr>)
      else None)"

text \<open>
  \<open>await c.disposeAll()\<close> with nothing else running in between: the result is the
  exception the call is rejected with, if any.
\<close>

definition disposeAll :: "nat \<Rightarrow> world \<Rightarrow> (jsval option \<times> world) option" where
  "disposeAll this w =
     (case disposeAll_begin this w of
        (Some e, w') \<Rightarrow> Some (Some e, w')
      | (None, w') \<Rightarrow> map_option (Pair None) (disposeAll_resume this w'))"

text \<open>
  \<open>createScope\<close>: \<open>child = new Container(); child.singletons = new Map(this.singletons)\<close>.
\<close>

definition createScope :: "nat \<Rightarrow> world \<Rightarrow> nat \<times> world" where
  "createScope this w =
     (let child = new_Container\<lparr>singletons := singletons (heap w ! this)\<rparr>
      in (length (heap w), w\<lparr>heap := heap w @ [child]\<rparr>))"

text \<open>
  What can happen next in a program that uses containers: a call of \<open>resolve\<close>,
  \<open>createScope\<close> or \<open>disposeAll\<close> on a container that exists, or a job of the event
  loop (a factory is called, an outcome reaches the handlers, a suspended \<open>disposeAll\<close>
  goes on). Execution is single-threaded: each of these runs to its end before the next.
  Jobs may run in any order here, which covers every order the event loop can choose
  and every delay of a factory that returns a promise.
\<close>

datatype event =
    Resolve nat injection_token factory "disposeFn option"
  | CreateScope nat
  | DisposeAll nat
  | Resume nat
  | Invoke nat
  | Settle nat

text \<open>A step gives the handle a \<open>resolve\<close> call returned, if the event is one.\<close>

fun step :: "event \<Rightarrow> world \<Rightarrow> (cell option \<times> world) option" where
  "step (Resolve this t f opts) w =
     (if this < length (heap w)
      then (let (h, w') = resolve this t f opts w in Some (Some h, w')) else None)"
| "step (CreateScope this) w =
     (if this < length (heap w) then Some (None, snd (createScope this w)) else None)"
| "step (DisposeAll this) w =
     (if this < length (heap w) then Some (None, snd (disposeAll_begin this w)) else None)"
| "step (Resume this) w = map_option (Pair None) (disposeAll_resume this w)"
| "step (Invoke p) w = map_option (Pair None) (invoke p w)"
| "step (Settle p) w = map_option (Pair None) (settle p w)"

fun run :: "event list \<Rightarrow> world \<Rightarrow> (cell option list \<times> world) option" where
  "run [] w = Some ([], w)"
| "run (e # es) w =
     (case step e w of
        None \<Rightarrow> None
      | Some (h, w') \<Rightarrow> (case run es w' of None \<Rightarrow> None | Some (hs, w'') \<Rightarrow> Some (h # hs, w'')))"

text \<open>The creations of container \<open>this\<close> for key \<open>k\<close>.\<close>

definition creates :: "world \<Rightarrow> nat \<Rightarrow> symbol \<Rightarrow> nat \<Rightarrow> bool" where
  "creates w this k p \<longleftrightarrow> owner (promises w ! p) = this \<and> ckey (promises w ! p) = k"

fun is_settled :: "stage \<Rightarrow> bool" where
  "is_settled (Settled oc) = True"
| "is_settled Queued = False"
| "is_settled (Invoked oc) = False"

text \<open>No creation of container \<open>this\<close> for key \<open>k\<close> is in flight.\<close>

definition quiet :: "world \<Rightarrow> nat \<Rightarrow> symbol \<Rightarrow> bool" where
  "quiet w this k \<longleftrightarrow>
     (\<forall>p < length (promises w). creates w this k p \<longrightarrow> is_settled (cstage (promises w ! p)))"


text \<open>
  While the creation \<open>p\<close> of container \<open>this\<close> for key \<open>k\<close> is in flight and no other
  is: the key's entry is the promise \<open>p\<close>.
\<close>

definition inflight :: "world \<Rightarrow> nat \<Rightarrow> symbol \<Rightarrow> nat \<Rightarrow> bool" where
  "inflight w this k p \<longleftrightarrow>
     this < length (heap w) \<and> p < length (promises w) \<and>
     singletons (heap w ! this) k = Some (CPromise p) \<and>
     creates w this k p \<and> \<not> is_settled (cstage (promises w ! p)) \<and>
     (\<forall>q < length (promises w). q \<noteq> p \<longrightarrow> creates w this k q \<longrightarrow> is_settled (cstage (promises w ! q)))"

text \<open>
  What every step keeps: containers and promises are never removed, and what a promise
  closes over never changes.
\<close>

definition extends :: "world \<Rightarrow> world \<Rightarrow> bool" where
  "extends w w' \<longleftrightarrow>
     length (promises w) \<le> length (promises w') \<and> length (heap w) \<le> length (heap w') \<and>
     (\<forall>q < length (promises w).
        owner (promises w' ! q) = owner (promises w ! q) \<and>
        ckey (promises w' ! q) = ckey (promises w ! q) \<and>
        cfactory (promises w' ! q) = cfactory (promises w ! q) \<and>
        copts (promises w' ! q) = copts (promises w ! q))"

text \<open>
  Every creation that has not settled is the one in flight for its container and key,
  and the creations belong to containers that exist.
\<close>

definition tidy :: "world \<Rightarrow> bool" where
  "tidy w \<longleftrightarrow>
     (\<forall>p < length (promises w).
        owner (promises w ! p) < length (heap w) \<and>
        (\<not> is_settled (cstage (promises w ! p)) \<longrightarrow>
           inflight w (owner (promises w ! p)) (ckey (promises w ! p)) p))"

text \<open>The container an event works on.\<close>

fun target :: "world \<Rightarrow> event \<Rightarrow> nat option" where
  "target w (Resolve this t f opts) = Some this"
| "target w (CreateScope this) = None"
| "target w (DisposeAll this) = None"
| "target w (Resume this) = Some this"
| "target w (Invoke p) = None"
| "target w (Settle p) = Some (owner (promises w ! p))"

section \<open>The container with a registration step\<close>

text \<open>
  The other \<open>Container\<close> class of \<open>container.ts\<close>: factories are registered first and
  \<open>resolve(t)\<close> takes the token only. \<open>resolvedInstances\<close> holds promises only. A
  disposer is a pair \<open>{ instancePromise, disposeFn }\<close>. The output of \<open>console.warn\<close> and
  \<open>console.error\<close> is not part of the state.
\<close>

record registration =
  factory :: factory
  options :: "disposeFn option"
  isSingleton :: bool

record rcontainer =
  registrations :: "symbol \<rightharpoonup> registration"
  resolvedInstances :: "symbol \<rightharpoonup> nat"
  disposers_reg :: "(nat \<times> disposeFn) list"

text \<open>
  An \<open>instancePromise\<close>: the chain
  \<open>Promise.resolve().then(() => factory()).then(value => value).catch(error => ...)\<close> of
  \<open>resolve\<close>, with what its handlers close over, or the \<open>Promise.resolve(value)\<close> of
  \<open>registerValue\<close>, which is settled from the start and has no handlers.
\<close>

record instancePromise =
  this_of :: nat
  key_of :: symbol
  factory_of :: factory
  singleton_of :: bool
  stage_of :: stage

text \<open>
  A \<open>disposeAll\<close> call that has begun: its container, the disposers of its copy
  \<open>currentDisposers\<close> that still wait for their instance, and whether the call has
  gone past its \<open>await\<close>.
\<close>

record disposal =
  dthis :: nat
  jobs :: "(nat \<times> disposeFn) list"
  finished :: bool

record rworld =
  rheap :: "rcontainer list"
  rpromises :: "instancePromise list"
  rinvoked :: "nat list"
  rdisposed :: "(nat \<times> jsval) list"
  disposals :: "disposal list"

definition new_rContainer :: rcontainer where
  "new_rContainer = \<lparr>registrations = Map.empty, resolvedInstances = Map.empty, disposers_reg = []\<rparr>"

definition init_rworld :: rworld where
  "init_rworld = \<lparr>rheap = [new_rContainer], rpromises = [], rinvoked = [], rdisposed = [], disposals = []\<rparr>"

definition rcalls :: "rworld \<Rightarrow> nat \<Rightarrow> nat" where
  "rcalls w i = length (filter (\<lambda>p. fid (factory_of (rpromises w ! p)) = Some i) (rinvoked w))"

definition rcall :: "rworld \<Rightarrow> factory \<Rightarrow> outcome" where
  "rcall w f = body f (case fid f of None \<Rightarrow> 0 | Some i \<Rightarrow> rcalls w i)"

text \<open>
  \<open>register(t, factory, options)\<close>: the registration is set (over an earlier one, with a
  warning) and \<open>this.resolvedInstances.delete(t.key)\<close>.
\<close>

definition register :: "nat \<Rightarrow> injection_token \<Rightarrow> factory \<Rightarrow> disposeFn option \<Rightarrow> rworld \<Rightarrow> rworld" where
  "register this t f opts w =
     (let c = rheap w ! this
      in w\<lparr>rheap := (rheap w)[this := c
            \<lparr>registrations := (registrations c)(key t \<mapsto> \<lparr>factory = f, options = opts, isSingleton = True\<rparr>),
             resolvedInstances := (resolvedInstances c)(key t := None)\<rparr>]\<rparr>)"

text \<open>
  \<open>registerValue(t, value, options)\<close>: registered as the factory \<open>() => value\<close>, cached
  at once as \<open>Promise.resolve(value)\<close>, with its disposer pushed if there is one.
\<close>

definition registerValue :: "nat \<Rightarrow> injection_token \<Rightarrow> jsval \<Rightarrow> disposeFn option \<Rightarrow> rworld \<Rightarrow> rworld" where
  "registerValue this t v opts w =
     (let c = rheap w ! this;
          p = length (rpromises w)
      in w\<lparr>rpromises := rpromises w @
              [\<lparr>this_of = this, key_of = key t, factory_of = Constantly v, singleton_of = True,
                stage_of = Settled (Fulfilled v)\<rparr>],
            rheap := (rheap w)[this := c
            \<lparr>registrations := (registrations c)(key t \<mapsto> \<lparr>factory = Constantly v, options = opts, isSingleton = True\<rparr>),
             resolvedInstances := (resolvedInstances c)(key t \<mapsto> p),
             disposers_reg := (case opts of None \<Rightarrow> disposers_reg c | Some d \<Rightarrow> disposers_reg c @ [(p, d)])\<rparr>]\<rparr>)"

datatype error = Error string

text \<open>The description of a token's symbol, \<open>String(t.key.description)\<close>.\<close>

fun description :: "symbol \<Rightarrow> string" where
  "description (Symbol i d) = d"

definition no_registration :: "injection_token \<Rightarrow> error" where
  "no_registration t =
     Error (''DI Container: No registration found for token '' @ [CHR 0x22] @ description (key t) @ [CHR 0x22] @ ''.'')"

text \<open>
  \<open>resolve(t)\<close>. The result is the promise the body returns, or the error it throws
  (with which the promise of the \<open>async\<close> function is rejected).
\<close>

definition resolve_reg :: "nat \<Rightarrow> injection_token \<Rightarrow> rworld \<Rightarrow> (error + nat) \<times> rworld" where
  "resolve_reg this t w =
     (let c = rheap w ! this in
      case resolvedInstances c (key t) of
        Some existing \<Rightarrow> (Inr existing, w)
      | None \<Rightarrow>
         (case registrations c (key t) of
            None \<Rightarrow> (Inl (no_registration t), w)
          | Some registration \<Rightarrow>
             (let p = length (rpromises w);
                  w1 = w\<lparr>rpromises := rpromises w @
                          [\<lparr>this_of = this, key_of = key t, factory_of = factory registration,
                            singleton_of = isSingleton registration, stage_of = Queued\<rparr>]\<rparr>
              in if isSingleton registration then
                   (Inr p, w1\<lparr>rheap := (rheap w)[this := c
                      \<lparr>resolvedInstances := (resolvedInstances c)(key t \<mapsto> p),
                       disposers_reg := (case options registration of
                                           None \<Rightarrow> disposers_reg c
                                         | Some d \<Rightarrow> disposers_reg c @ [(p, d)])\<rparr>]\<rparr>)
                 else (Inr p, w1))))"

text \<open>The job \<open>() => factory()\<close>.\<close>

definition invoke_reg :: "nat \<Rightarrow> rworld \<Rightarrow> rworld option" where
  "invoke_reg p w =
     (if p < length (rpromises w) then
        (let pr = rpromises w ! p in
         case stage_of pr of
           Queued \<Rightarrow>
             Some (w\<lparr>rpromises := (rpromises w)[p := pr\<lparr>stage_of := Invoked (rcall w (factory_of pr))\<rparr>],
                     rinvoked := rinvoked w @ [p]\<rparr>)
         | _ \<Rightarrow> None)
      else None)"

text \<open>
  The handler \<open>error => { if (isSingleton) this.resolvedInstances.delete(t.key);
  this.disposers = this.disposers.filter(d => d.instancePromise !== instancePromise);
  throw error; }\<close>.
\<close>

definition on_error :: "nat \<Rightarrow> instancePromise \<Rightarrow> rcontainer \<Rightarrow> rcontainer" where
  "on_error p pr c =
     c\<lparr>resolvedInstances := (if singleton_of pr then (resolvedInstances c)(key_of pr := None)
                              else resolvedInstances c),
       disposers_reg := filter (\<lambda>d. fst d \<noteq> p) (disposers_reg c)\<rparr>"

text \<open>
  The factory's outcome reaches the handlers: \<open>value => value\<close> changes nothing, the
  \<open>catch\<close> handler cleans up.
\<close>

definition settle_reg :: "nat \<Rightarrow> rworld \<Rightarrow> rworld option" where
  "settle_reg p w =
     (if p < length (rpromises w) then
        (let pr = rpromises w ! p; this = this_of pr in
         case stage_of pr of
           Invoked (Fulfilled v) \<Rightarrow>
             Some (w\<lparr>rpromises := (rpromises w)[p := pr\<lparr>stage_of := Settled (Fulfilled v)\<rparr>]\<rparr>)
         | Invoked (Rejected e) \<Rightarrow>
             Some (w\<lparr>rheap := (rheap w)[this := on_error p pr (rheap w ! this)],
                     rpromises := (rpromises w)[p := pr\<lparr>stage_of := Settled (Rejected e)\<rparr>]\<rparr>)
         | _ \<Rightarrow> None)
      else None)"

text \<open>
  \<open>disposeAll\<close> up to its \<open>await\<close>: the disposers are copied, \<open>this.disposers = []\<close>, and
  every \<open>async\<close> closure of the \<open>map\<close> stops at its \<open>await instancePromise\<close>. The result
  is the reference of the call.
\<close>

definition disposeAll_reg_begin :: "nat \<Rightarrow> rworld \<Rightarrow> nat \<times> rworld" where
  "disposeAll_reg_begin this w =
     (let c = rheap w ! this
      in (length (disposals w),
          w\<lparr>rheap := (rheap w)[this := c\<lparr>disposers_reg := []\<rparr>],
            disposals := disposals w @ [\<lparr>dthis = this, jobs = disposers_reg c, finished = False\<rparr>]\<rparr>))"

text \<open>
  One closure of the \<open>map\<close> goes on once its instance promise has settled: on a value,
  \<open>Promise.resolve().then(() => disposeFn(instance))\<close> calls the dispose function, and
  whatever that does ends in the closure's own promise; on a rejection the dispose
  function is not called.
\<close>

definition dispose_job :: "nat \<Rightarrow> nat \<Rightarrow> rworld \<Rightarrow> rworld option" where
  "dispose_job d j w =
     (if d < length (disposals w) \<and> j < length (jobs (disposals w ! d)) then
        (let dl = disposals w ! d;
             (p, fn) = jobs dl ! j;
             rest = dl\<lparr>jobs := take j (jobs dl) @ drop (Suc j) (jobs dl)\<rparr>
         in case stage_of (rpromises w ! p) of
              Settled (Fulfilled v) \<Rightarrow>
                Some (w\<lparr>rdisposed := rdisposed w @ [(did fn, v)],
                        disposals := (disposals w)[d := rest]\<rparr>)
            | Settled (Rejected e) \<Rightarrow> Some (w\<lparr>disposals := (disposals w)[d := rest]\<rparr>)
            | _ \<Rightarrow> None)
      else None)"

text \<open>
  \<open>disposeAll\<close> after \<open>await Promise.allSettled(disposePromises)\<close>, when every closure
  has ended: \<open>this.resolvedInstances.clear()\<close>.
\<close>

definition disposeAll_reg_resume :: "nat \<Rightarrow> rworld \<Rightarrow> rworld option" where
  "disposeAll_reg_resume d w =
     (if d < length (disposals w) \<and> \<not> finished (disposals w ! d) \<and> jobs (disposals w ! d) = [] then
        (let this = dthis (disposals w ! d) in
         Some (w\<lparr>rheap := (rheap w)[this := (rheap w ! this)\<lparr>resolvedInstances := Map.empty\<rparr>],
                 disposals := (disposals w)[d := (disposals w ! d)\<lparr>finished := True\<rparr>]\<rparr>))
      else None)"

text \<open>
  \<open>await c.disposeAll()\<close> with nothing else running in between and every instance
  promise of a disposer settled: the closures go on one after the other, then the call
  does. (With an instance promise that is not settled yet the call waits: \<open>None\<close>.)
\<close>

fun run_jobs :: "nat \<Rightarrow> nat \<Rightarrow> rworld \<Rightarrow> rworld option" where
  "run_jobs d 0 w = Some w"
| "run_jobs d (Suc n) w = (case dispose_job d 0 w of None \<Rightarrow> None | Some w' \<Rightarrow> run_jobs d n w')"

definition disposeAll_reg :: "nat \<Rightarrow> rworld \<Rightarrow> rworld option" where
  "disposeAll_reg this w =
     (let (d, w1) = disposeAll_reg_begin this w in
      case run_jobs d (length (jobs (disposals w1 ! d))) w1 of
        None \<Rightarrow> None
      | Some w2 \<Rightarrow> disposeAll_reg_resume d w2)"

text \<open>The value of a fulfilled promise.\<close>

fun value_of :: "stage \<Rightarrow> jsval" where
  "value_of (Settled (Fulfilled v)) = v"
| "value_of (Settled (Rejected e)) = JUndefined"
| "value_of (Invoked oc) = JUndefined"
| "value_of Queued = JUndefined"

text \<open>
  \<open>createScope\<close>: the child copies \<open>resolvedInstances\<close> and \<open>registrations\<close> and starts
  with no disposers.
\<close>

definition createScope_reg :: "nat \<Rightarrow> rworld \<Rightarrow> nat \<times> rworld" where
  "createScope_reg this w =
     (let c = rheap w ! this;
          child = new_rContainer\<lparr>resolvedInstances := resolvedInstances c, registrations := registrations c\<rparr>
      in (length (rheap w), w\<lparr>rheap := rheap w @ [child]\<rparr>))"

section \<open>The environment loader\<close>

text \<open>
  \<open>loadenv(schema, envSource?)\<close> is \<open>schema.parse(envSource ?? process.env)\<close>. The schema
  is an object of the validation library; what \<open>loadenv\<close> uses of it is its \<open>parse\<close>,
  which returns the validated object or throws. It is a parameter here, as is the
  process environment.
\<close>

definition loadenv :: "('env \<Rightarrow> 'err + 'a) \<Rightarrow> 'env option \<Rightarrow> 'env \<Rightarrow> 'err + 'a" where
  "loadenv parse envSource process_env =
     (let env = (case envSource of Some src \<Rightarrow> src | None \<Rightarrow> process_env)
      in parse env)"

section \<open>Properties of the container without a registration step\<close>

subsection \<open>What every step keeps\<close>

lemmas world_defs = resolve_def install_def map_get_def init_world_def new_Container_def invoke_def
  settle_def on_fulfilled_def on_rejected_def call_def calls_def Let_def

lemma nth_upd: "j < length xs \<Longrightarrow> xs[i := x] ! j = (if i = j then x else xs ! j)"
  by (cases "i = j") simp_all

lemma extends_refl: "extends w w"
  by (simp add: extends_def)


lemma resolve_cases:
  "resolve this t f opts w = (h, w') \<Longrightarrow>
     (truthy_cell (map_get (singletons (heap w ! this)) (key t)) \<and> h = map_get (singletons (heap w ! this)) (key t) \<and> w' = w) \<or>
     (\<not> truthy_cell (map_get (singletons (heap w ! this)) (key t)) \<and> (h, w') = install this (key t) f opts w)"
  by (auto simp: resolve_def Let_def split: if_splits)

lemma install_extends: "install this k f opts w = (h, w') \<Longrightarrow> extends w w'"
  by (auto simp: install_def Let_def extends_def nth_append)

lemma resolve_extends: "resolve this t f opts w = (h, w') \<Longrightarrow> extends w w'"
  by (auto dest!: resolve_cases dest: install_extends [OF sym] simp: extends_refl)

lemma invoke_extends: "invoke p w = Some w' \<Longrightarrow> extends w w'"
  by (auto simp: invoke_def Let_def extends_def nth_list_update split: if_splits stage.splits)

lemma settle_extends: "settle p w = Some w' \<Longrightarrow> extends w w'"
  by (auto simp: settle_def Let_def extends_def nth_list_update split: if_splits stage.splits outcome.splits)

lemma createScope_extends: "extends w (snd (createScope this w))"
  by (auto simp: createScope_def Let_def extends_def)

lemma disposeAll_begin_extends: "extends w (snd (disposeAll_begin this w))"
  by (auto simp: disposeAll_begin_def extends_def split: prod.splits option.splits)

lemma disposeAll_resume_extends: "disposeAll_resume this w = Some w' \<Longrightarrow> extends w w'"
  by (auto simp: disposeAll_resume_def extends_def split: if_splits)

lemma step_extends: "step e w = Some (h, w') \<Longrightarrow> extends w w'"
  by (cases e)
     (auto split: if_splits prod.splits
           dest: resolve_extends invoke_extends settle_extends disposeAll_resume_extends
           simp: createScope_extends disposeAll_begin_extends)


lemma step_keeps_settled:
  "step e w = Some (h, w') \<Longrightarrow> p < length (promises w) \<Longrightarrow> cstage (promises w ! p) = Settled oc \<Longrightarrow>
   cstage (promises w' ! p) = Settled oc"
  by (cases e)
     (auto simp: resolve_def install_def Let_def createScope_def disposeAll_begin_def disposeAll_resume_def
                 invoke_def settle_def nth_append nth_list_update
           split: if_splits prod.splits option.splits stage.splits outcome.splits)


lemma inflight_resolve:
  assumes "inflight w this k p" and "resolve c t f opts w = (h, w')" and "c < length (heap w)"
  shows "inflight w' this k p \<and> (c = this \<and> key t = k \<longrightarrow> h = CPromise p \<and> w' = w) \<and>
         cstage (promises w' ! p) = cstage (promises w ! p) \<and>
         (\<forall>q. length (promises w) \<le> q \<and> q < length (promises w') \<longrightarrow> \<not> creates w' this k q)"
proof -
  from resolve_cases [OF assms(2)] show ?thesis
  proof
    assume "truthy_cell (map_get (singletons (heap w ! c)) (key t)) \<and> h = map_get (singletons (heap w ! c)) (key t) \<and> w' = w"
    with assms(1) show ?thesis by (auto simp: inflight_def map_get_def)
  next
    assume a: "\<not> truthy_cell (map_get (singletons (heap w ! c)) (key t)) \<and> (h, w') = install c (key t) f opts w"
    then have ne: "\<not> (c = this \<and> key t = k)"
      using assms(1) by (auto simp: inflight_def map_get_def)
    from a have w': "w' = snd (install c (key t) f opts w)" by (metis snd_conv)
    show ?thesis using assms(1,3) ne unfolding w'
      by (auto simp: inflight_def install_def Let_def creates_def nth_append nth_list_update)
  qed
qed

lemma inflight_invoke:
  assumes "inflight w this k p" and "invoke q w = Some w'"
  shows "inflight w' this k p \<and> (creates w this k q \<longrightarrow> q = p \<and> cstage (promises w ! p) = Queued) \<and>
         (q = p \<longrightarrow> cstage (promises w' ! p) \<noteq> Queued) \<and>
         (q \<noteq> p \<longrightarrow> cstage (promises w' ! p) = cstage (promises w ! p)) \<and> q < length (promises w)"
  using assms
  by (auto simp: inflight_def invoke_def Let_def creates_def nth_list_update split: if_splits stage.splits)

lemma inflight_settle:
  assumes "inflight w this k p" and "settle q w = Some w'" and "q \<noteq> p"
  shows "inflight w' this k p \<and> cstage (promises w' ! p) = cstage (promises w ! p)"
proof -
  from assms(2) have q: "q < length (promises w)" and "\<not> is_settled (cstage (promises w ! q))"
    by (auto simp: settle_def Let_def split: if_splits stage.splits outcome.splits)
  with assms(1,3) have other: "\<not> (owner (promises w ! q) = this \<and> ckey (promises w ! q) = k)"
    by (auto simp: inflight_def creates_def)
  show ?thesis using assms other
    by (auto simp: inflight_def settle_def Let_def creates_def nth_list_update nth_upd on_fulfilled_def on_rejected_def
             split: if_splits stage.splits outcome.splits)
qed

lemma inflight_createScope:
  assumes "inflight w this k p"
  shows "inflight (snd (createScope c w)) this k p \<and> cstage (promises (snd (createScope c w)) ! p) = cstage (promises w ! p)"
  using assms
  by (auto simp: inflight_def createScope_def Let_def creates_def nth_append)

lemma inflight_disposeAll_begin:
  assumes "inflight w this k p"
  shows "inflight (snd (disposeAll_begin c w)) this k p \<and> cstage (promises (snd (disposeAll_begin c w)) ! p) = cstage (promises w ! p)"
  using assms
  by (auto simp: inflight_def disposeAll_begin_def creates_def split: prod.splits option.splits)

lemma inflight_disposeAll_resume:
  assumes "inflight w this k p" and "disposeAll_resume c w = Some w'" and "c \<noteq> this"
  shows "inflight w' this k p \<and> cstage (promises w' ! p) = cstage (promises w ! p)"
  using assms
  by (auto simp: inflight_def disposeAll_resume_def creates_def nth_upd split: if_splits)

lemma step_inflight:
  assumes "inflight w this k p" and "step e w = Some (h, w1)" and "e \<noteq> Settle p" and "e \<noteq> Resume this"
  shows "inflight w1 this k p \<and>
         (\<forall>t' f' o'. e = Resolve this t' f' o' \<longrightarrow> key t' = k \<longrightarrow> h = Some (CPromise p)) \<and>
         (\<forall>q. e = Invoke q \<longrightarrow> q < length (promises w) \<and> cstage (promises w1 ! q) \<noteq> Queued \<and>
               (creates w this k q \<longrightarrow> q = p \<and> cstage (promises w ! p) = Queued)) \<and>
         ((\<forall>q. e \<noteq> Invoke q) \<or> cstage (promises w ! p) \<noteq> Queued \<longrightarrow> cstage (promises w1 ! p) = cstage (promises w ! p)) \<and>
         (\<forall>q. length (promises w) \<le> q \<and> q < length (promises w1) \<longrightarrow> \<not> creates w1 this k q)"
proof (cases e)
  case (Resolve c t f opts)
  with assms(2) have c: "c < length (heap w)" and r: "resolve c t f opts w = (the h, w1)" and h: "h = Some (the h)"
    by (auto split: if_splits prod.splits)
  from inflight_resolve [OF assms(1) r c] h Resolve show ?thesis by auto
next
  case (CreateScope c)
  with assms(2) have "w1 = snd (createScope c w)" by (auto split: if_splits)
  with inflight_createScope [OF assms(1), of c] CreateScope show ?thesis
    by (auto simp: createScope_def Let_def)
next
  case (DisposeAll c)
  with assms(2) have "w1 = snd (disposeAll_begin c w)" by (auto split: if_splits)
  with inflight_disposeAll_begin [OF assms(1), of c] DisposeAll show ?thesis
    by (auto simp: disposeAll_begin_def split: prod.splits option.splits)
next
  case (Resume c)
  with assms(2,4) have r: "disposeAll_resume c w = Some w1" and "c \<noteq> this" by auto
  with inflight_disposeAll_resume [OF assms(1) r] Resume show ?thesis
    by (auto simp: disposeAll_resume_def split: if_splits)
next
  case (Invoke q)
  with assms(2) have i: "invoke q w = Some w1" by auto
  from i have len: "length (promises w1) = length (promises w)" and nq: "cstage (promises w1 ! q) \<noteq> Queued"
    and "cstage (promises w ! q) = Queued"
    by (auto simp: invoke_def Let_def split: if_splits stage.splits)
  with inflight_invoke [OF assms(1) i] Invoke show ?thesis by auto
next
  case (Settle q)
  with assms(2,3) have i: "settle q w = Some w1" and "q \<noteq> p" by auto
  from i have len: "length (promises w1) = length (promises w)"
    by (auto simp: settle_def Let_def split: if_splits stage.splits outcome.splits)
  from inflight_settle [OF assms(1) i \<open>q \<noteq> p\<close>] Settle len show ?thesis by auto
qed


lemma install_inflight:
  assumes "this < length (heap w)" and "quiet w this k" and "install this k f opts w = (h, w0)"
  shows "inflight w0 this k (length (promises w)) \<and> h = CPromise (length (promises w)) \<and>
         cstage (promises w0 ! length (promises w)) = Queued \<and> length (promises w0) = Suc (length (promises w))"
  using assms
  by (auto simp: install_def Let_def inflight_def quiet_def creates_def nth_append less_Suc_eq)

subsection \<open>Concurrent resolution\<close>

text \<open>
  From a fresh world, as long as no \<open>disposeAll\<close> has gone past its await, every
  creation that has not settled is the only one in flight for its container and key,
  and the key's entry is its promise. So where a token has no usable entry, no creation
  for it is in flight.
\<close>

lemma tidy_quiet:
  assumes "tidy w" and "\<not> truthy_cell (map_get (singletons (heap w ! this)) k)"
  shows "quiet w this k"
  unfolding quiet_def
proof (intro allI impI)
  fix p assume p: "p < length (promises w)" and c: "creates w this k p"
  show "is_settled (cstage (promises w ! p))"
  proof (rule ccontr)
    assume "\<not> is_settled (cstage (promises w ! p))"
    with assms(1) p c have "inflight w this k p" by (auto simp: tidy_def creates_def)
    then have "singletons (heap w ! this) k = Some (CPromise p)" by (simp add: inflight_def)
    with assms(2) show False by (simp add: map_get_def)
  qed
qed

lemma step_unsettled:
  assumes "step e w = Some (h, w')" and "p < length (promises w)" and "\<not> is_settled (cstage (promises w' ! p))"
  shows "\<not> is_settled (cstage (promises w ! p)) \<and> e \<noteq> Settle p"
proof -
  have "\<not> is_settled (cstage (promises w ! p))"
  proof
    assume "is_settled (cstage (promises w ! p))"
    then obtain oc where "cstage (promises w ! p) = Settled oc" by (cases "cstage (promises w ! p)") auto
    from step_keeps_settled [OF assms(1,2) this] assms(3) show False by simp
  qed
  moreover have "e \<noteq> Settle p"
  proof
    assume "e = Settle p"
    with assms(1,2) have "is_settled (cstage (promises w' ! p))"
      by (auto simp: settle_def Let_def split: if_splits stage.splits outcome.splits)
    with assms(3) show False by simp
  qed
  ultimately show ?thesis by simp
qed

lemma step_new_promise:
  assumes "step e w = Some (h, w')" and "length (promises w) \<le> p" and "p < length (promises w')"
  shows "\<exists>this t f opts. e = Resolve this t f opts \<and> this < length (heap w) \<and> p = length (promises w) \<and>
           \<not> truthy_cell (map_get (singletons (heap w ! this)) (key t)) \<and>
           install this (key t) f opts w = (the h, w') \<and>
           owner (promises w' ! p) = this \<and> ckey (promises w' ! p) = key t"
proof (cases e)
  case (Resolve this t f opts)
  with assms(1) have c: "this < length (heap w)" and r: "resolve this t f opts w = (the h, w')"
    by (auto split: if_splits prod.splits)
  from resolve_cases [OF r] assms(2,3)
  have nt: "\<not> truthy_cell (map_get (singletons (heap w ! this)) (key t))"
    and i: "install this (key t) f opts w = (the h, w')"
    by auto
  from i have len: "length (promises w') = Suc (length (promises w))"
    by (auto simp: install_def Let_def)
  with assms(2,3) have p: "p = length (promises w)" by simp
  from i p have "owner (promises w' ! p) = this \<and> ckey (promises w' ! p) = key t"
    by (auto simp: install_def Let_def)
  with Resolve c nt i p show ?thesis by blast
next
  case (CreateScope c)
  with assms show ?thesis by (auto simp: createScope_def Let_def split: if_splits)
next
  case (DisposeAll c)
  with assms show ?thesis by (auto simp: disposeAll_begin_def split: if_splits prod.splits option.splits)
next
  case (Resume c)
  with assms show ?thesis by (auto simp: disposeAll_resume_def split: if_splits)
next
  case (Invoke q)
  with assms show ?thesis by (auto simp: invoke_def Let_def split: if_splits stage.splits)
next
  case (Settle q)
  with assms show ?thesis by (auto simp: settle_def Let_def split: if_splits stage.splits outcome.splits)
qed

lemma step_tidy:
  assumes "tidy w" and "step e w = Some (h, w')" and "\<forall>c. e \<noteq> Resume c"
  shows "tidy w'"
  unfolding tidy_def
proof (intro allI impI conjI)
  fix p assume p: "p < length (promises w')"
  note ex = step_extends [OF assms(2)]
  show "owner (promises w' ! p) < length (heap w')"
  proof (cases "p < length (promises w)")
    case True
    with assms(1) ex show ?thesis by (auto simp: tidy_def extends_def)
  next
    case False
    with step_new_promise [OF assms(2) _ p] ex show ?thesis by (auto simp: extends_def)
  qed
  assume u: "\<not> is_settled (cstage (promises w' ! p))"
  show "inflight w' (owner (promises w' ! p)) (ckey (promises w' ! p)) p"
  proof (cases "p < length (promises w)")
    case True
    from step_unsettled [OF assms(2) True u] have u0: "\<not> is_settled (cstage (promises w ! p))" and ne: "e \<noteq> Settle p"
      by simp_all
    from assms(1) True u0 have "inflight w (owner (promises w ! p)) (ckey (promises w ! p)) p"
      by (simp add: tidy_def)
    from step_inflight [OF this assms(2) ne] assms(3)
    have "inflight w' (owner (promises w ! p)) (ckey (promises w ! p)) p" by blast
    with ex True show ?thesis by (simp add: extends_def)
  next
    case False
    then have "length (promises w) \<le> p" by simp
    from step_new_promise [OF assms(2) this p] obtain this and t :: injection_token and f opts where
      n: "this < length (heap w)" "p = length (promises w)"
         "\<not> truthy_cell (map_get (singletons (heap w ! this)) (key t))"
         "install this (key t) f opts w = (the h, w')"
         "owner (promises w' ! p) = this" "ckey (promises w' ! p) = key t"
      by blast
    from tidy_quiet [OF assms(1) n(3)] have "quiet w this (key t)" .
    from install_inflight [OF n(1) this n(4)] n show ?thesis by simp
  qed
qed

lemma run_tidy:
  "tidy w \<Longrightarrow> run es w = Some (hs, w') \<Longrightarrow> \<forall>e \<in> set es. \<forall>c. e \<noteq> Resume c \<Longrightarrow> tidy w'"
proof (induction es arbitrary: w hs)
  case Nil
  then show ?case by simp
next
  case (Cons e es)
  from Cons.prems(2) obtain h w1 hs' where
    st: "step e w = Some (h, w1)" and rn: "run es w1 = Some (hs', w')"
    by (auto split: option.splits prod.splits)
  from step_tidy [OF Cons.prems(1) st] Cons.prems(3) have "tidy w1" by simp
  from Cons.IH [OF this rn] Cons.prems(3) show ?case by simp
qed

lemma tidy_init: "tidy init_world"
  by (simp add: tidy_def init_world_def)

lemma reachable_quiet:
  assumes "run es init_world = Some (hs, w)" and "\<forall>e \<in> set es. \<forall>c. e \<noteq> Resume c"
    and "\<not> truthy_cell (map_get (singletons (heap w ! this)) k)"
  shows "quiet w this k"
  using run_tidy [OF tidy_init assms(1,2)] assms(3) by (rule tidy_quiet)



text \<open>
  The proviso on \<open>disposeAll\<close> is needed. When a \<open>disposeAll\<close> goes past its await
  while a creation is in flight, the mapping is cleared, and the next resolve call for
  the token starts a second creation although the first has not completed.
\<close>

lemma resume_in_flight_starts_second_creation:
  "\<exists>w. run [Resolve 0 t (Factory i b) opts, Invoke 0, DisposeAll 0, Resume 0,
              Resolve 0 t (Factory i b) opts, Invoke 1] init_world
           = Some ([Some (CPromise 0), None, None, None, Some (CPromise 1), None], w) \<and>
         invoked w = [0, 1] \<and> calls w i = 2 \<and>
         cstage (promises w ! 0) = Invoked (b 0) \<and> cstage (promises w ! 1) = Invoked (b 1)"
  by (simp add: world_defs disposeAll_begin_def disposeAll_resume_def)

subsection \<open>An entry that is there\<close>

text \<open>
  An entry that is a pending promise, or a value that is truthy, is returned as it is,
  and nothing else happens: the creation function of the call is not even looked at.
\<close>

lemma resolve_cached:
  "singletons (heap w ! this) (key t) = Some c \<Longrightarrow> truthy_cell c \<Longrightarrow> resolve this t f opts w = (c, w)"
  by (simp add: resolve_def map_get_def)

lemma resolve_pending:
  "singletons (heap w ! this) (key t) = Some (CPromise p) \<Longrightarrow> resolve this t f opts w = (CPromise p, w)"
  by (simp add: resolve_cached)

text \<open>
  So, from a fresh container, with a creation function whose first result is a truthy
  value: the second resolve call for the token, with whatever creation function,
  returns that value, and only the first function has been called, once.
\<close>

lemma resolve_twice_truthy:
  assumes "b 0 = Fulfilled v" and "truthy v"
  shows "\<exists>w. run [Resolve 0 t (Factory i b) opts, Invoke 0, Settle 0, Resolve 0 t g opts'] init_world
               = Some ([Some (CPromise 0), None, None, Some (CValue v)], w) \<and>
             observe w (CPromise 0) = Some (Fulfilled v) \<and>
             observe w (CValue v) = Some (Fulfilled v) \<and>
             invoked w = [0] \<and> length (promises w) = 1"
  using assms by (simp add: world_defs observe_def)

text \<open>
  C2. The claim is that a resolve call for a token with an entry, pending or ready,
  returns the entry and does not invoke the creation function of the call. The entry is
  tested with \<open>if (existing)\<close>, so that a ready entry whose value is falsy does not count:
  after \<open>await c.resolve(t, () => 0)\<close> the mapping holds \<open>0\<close> for the key, and
  \<open>c.resolve(t, () => 5)\<close> stores and returns a new promise, and the job that follows
  calls the second creation function.
\<close>

theorem resolve_falsy_entry_calls_factory:
  "\<exists>w1 w2 w3.
     run [Resolve 0 \<lparr>key = Symbol 0 ''zero''\<rparr> (Factory 0 (\<lambda>n. Fulfilled (JNum 0))) None, Invoke 0, Settle 0] init_world
       = Some ([Some (CPromise 0), None, None], w1) \<and>
     singletons (heap w1 ! 0) (Symbol 0 ''zero'') = Some (CValue (JNum 0)) \<and>
     resolve 0 \<lparr>key = Symbol 0 ''zero''\<rparr> (Factory 1 (\<lambda>n. Fulfilled (JNum 5))) None w1 = (CPromise 1, w2) \<and>
     cfactory (promises w2 ! 1) = Factory 1 (\<lambda>n. Fulfilled (JNum 5)) \<and>
     calls w2 1 = 0 \<and>
     invoke 1 w2 = Some w3 \<and> calls w3 1 = 1 \<and>
     cstage (promises w3 ! 1) = Invoked (Fulfilled (JNum 5))"
  by (simp add: world_defs)

subsection \<open>A creation that fails\<close>





subsection \<open>Disposal\<close>



text \<open>
  While no registered disposer throws when it is called, \<open>await c.disposeAll()\<close> calls
  every registered disposer once, in order, with the value it was registered for, and
  returns normally, whether the promises those calls return fulfil or reject.
\<close>

lemma map_call_no_throw:
  "\<forall>(d, v) \<in> set fns. \<forall>e. dbody d v \<noteq> DThrows e \<Longrightarrow>
   map_call fns log = (log @ map (\<lambda>(d, v). (did d, v)) fns, None)"
  by (induction fns arbitrary: log) (auto split: dres.splits)

lemma disposeAll_no_throw:
  assumes "this < length (heap w)"
    and "\<forall>(d, v) \<in> set (disposers (heap w ! this)). \<forall>e. dbody d v \<noteq> DThrows e"
  shows "\<exists>w'. disposeAll this w = Some (None, w') \<and>
           disposed w' = disposed w @ map (\<lambda>(d, v). (did d, v)) (disposers (heap w ! this)) \<and>
           heap w' ! this = new_Container"
  using assms
  by (simp add: disposeAll_def disposeAll_begin_def disposeAll_resume_def map_call_no_throw new_Container_def)

text \<open>
  C5. The claim is that \<open>disposeAll\<close> invokes every registered disposer exactly once and
  that a failing disposer neither keeps the others from running nor makes the call
  fail. The disposers are called inside \<open>this.disposers.map(fn => fn())\<close>, before
  \<open>Promise.allSettled\<close> sees anything: a disposer that throws when called ends the
  mapping. With two values resolved, the first with a disposer that throws, the second
  disposer is never called, the call is rejected with the exception, and the mapping and
  the disposer list are left as they were.
\<close>

theorem disposeAll_throwing_disposer:
  "\<exists>w w1.
     run [Resolve 0 \<lparr>key = Symbol 1 ''one''\<rparr> (Factory 1 (\<lambda>n. Fulfilled (JObj 1)))
            (Some (DisposeFn 1 (\<lambda>v. DThrows (JStr ''boom'')))), Invoke 0, Settle 0,
          Resolve 0 \<lparr>key = Symbol 2 ''two''\<rparr> (Factory 2 (\<lambda>n. Fulfilled (JObj 2)))
            (Some (DisposeFn 2 (\<lambda>v. DReturns))), Invoke 1, Settle 1] init_world
       = Some ([Some (CPromise 0), None, None, Some (CPromise 1), None, None], w) \<and>
     map (\<lambda>(d, v). (did d, v)) (disposers (heap w ! 0)) = [(1, JObj 1), (2, JObj 2)] \<and>
     disposeAll 0 w = Some (Some (JStr ''boom''), w1) \<and>
     disposed w1 = [(1, JObj 1)] \<and>
     heap w1 = heap w \<and>
     singletons (heap w1 ! 0) (Symbol 1 ''one'') = Some (CValue (JObj 1)) \<and>
     singletons (heap w1 ! 0) (Symbol 2 ''two'') = Some (CValue (JObj 2))"
  by (simp add: world_defs disposeAll_def disposeAll_begin_def)

subsection \<open>Registration of disposers\<close>

lemma step_frame:
  assumes "step e w = Some (h, w1)" and "c < length (heap w)" and "target w e \<noteq> Some c"
  shows "heap w1 ! c = heap w ! c"
  using assms
  by (cases e)
     (auto simp: resolve_def install_def Let_def createScope_def disposeAll_begin_def disposeAll_resume_def
                 invoke_def settle_def nth_append nth_upd
           split: if_splits prod.splits option.splits stage.splits outcome.splits)

text \<open>
  C6. In any step, the disposer list of a container stays as it is, or it is emptied by
  a \<open>disposeAll\<close> of that container going past its await, or it gets one more disposer
  at its end, and then the step is the successful completion of a creation of that
  container whose resolve call supplied \<open>dispose\<close>, and the disposer is that function
  bound to the created value. In particular, when the outcome that reaches the handlers
  is a failure, the promise is rejected and every disposer list stays as it is,
  whether \<open>dispose\<close> was supplied or not.
\<close>

theorem only_success_registers_disposer:
  assumes "step e w = Some (h, w1)" and "c < length (heap w)"
  shows "(disposers (heap w1 ! c) = disposers (heap w ! c) \<or>
          (e = Resume c \<and> disposers (heap w1 ! c) = []) \<or>
          (\<exists>p d v. e = Settle p \<and> owner (promises w ! p) = c \<and>
                   cstage (promises w ! p) = Invoked (Fulfilled v) \<and> copts (promises w ! p) = Some d \<and>
                   disposers (heap w1 ! c) = disposers (heap w ! c) @ [(d, v)])) \<and>
         (\<forall>p r. e = Settle p \<and> cstage (promises w ! p) = Invoked (Rejected r) \<longrightarrow>
                 disposers (heap w1 ! c) = disposers (heap w ! c) \<and>
                 cstage (promises w1 ! p) = Settled (Rejected r))"
proof (cases e)
  case (Resolve this t f opts)
  with assms show ?thesis
    by (auto simp: resolve_def install_def Let_def nth_upd split: if_splits)
next
  case (CreateScope this)
  with assms show ?thesis by (auto simp: createScope_def Let_def nth_append split: if_splits)
next
  case (DisposeAll this)
  with assms show ?thesis by (auto simp: disposeAll_begin_def split: if_splits prod.splits option.splits)
next
  case (Resume this)
  with assms show ?thesis by (auto simp: disposeAll_resume_def nth_upd split: if_splits)
next
  case (Invoke p)
  with assms show ?thesis by (auto simp: invoke_def Let_def split: if_splits stage.splits)
next
  case (Settle p)
  with assms show ?thesis
    by (auto simp: settle_def Let_def on_fulfilled_def on_rejected_def nth_upd
             split: if_splits stage.splits outcome.splits option.splits)
qed

theorem only_success_registers_disposer_witness:
  "\<exists>w w1. run [Resolve 0 \<lparr>key = Symbol 0 ''fails''\<rparr> (Factory 0 (\<lambda>n. Rejected (JStr ''boom'')))
                  (Some (DisposeFn 0 (\<lambda>v. DReturns))), Invoke 0] init_world
             = Some ([Some (CPromise 0), None], w) \<and>
          copts (promises w ! 0) = Some (DisposeFn 0 (\<lambda>v. DReturns)) \<and>
          disposers (heap w ! 0) = [] \<and>
          step (Settle 0) w = Some (None, w1) \<and>
          disposers (heap w1 ! 0) = [] \<and>
          cstage (promises w1 ! 0) = Settled (Rejected (JStr ''boom''))"
proof -
  let ?t = "\<lparr>key = Symbol 0 ''fails''\<rparr>"
  let ?f = "Factory 0 (\<lambda>n. Rejected (JStr ''boom''))"
  let ?d = "DisposeFn 0 (\<lambda>v. DReturns)"
  have "\<exists>w w1. run [Resolve 0 ?t ?f (Some ?d), Invoke 0] init_world = Some ([Some (CPromise 0), None], w) \<and>
          copts (promises w ! 0) = Some ?d \<and> disposers (heap w ! 0) = [] \<and> 0 < length (heap w) \<and>
          cstage (promises w ! 0) = Invoked (Rejected (JStr ''boom'')) \<and>
          step (Settle 0) w = Some (None, w1)"
    by (simp add: world_defs)
  then obtain w w1 where w:
    "run [Resolve 0 ?t ?f (Some ?d), Invoke 0] init_world = Some ([Some (CPromise 0), None], w)"
    "copts (promises w ! 0) = Some ?d" "disposers (heap w ! 0) = []" "0 < length (heap w)"
    "cstage (promises w ! 0) = Invoked (Rejected (JStr ''boom''))"
    "step (Settle 0) w = Some (None, w1)"
    by blast
  from only_success_registers_disposer [OF w(6,4)] w(5)
  have "disposers (heap w1 ! 0) = disposers (heap w ! 0) \<and> cstage (promises w1 ! 0) = Settled (Rejected (JStr ''boom''))"
    by blast
  with w show ?thesis by auto
qed

subsection \<open>Scopes\<close>

text \<open>
  \<open>createScope\<close> adds a container whose mapping is the parent's mapping of that moment
  and whose disposer list is empty, and changes nothing else. Every later step changes
  at most the container it works on (\<open>step_frame\<close>). An entry of the parent that is a
  pending promise or a truthy value is returned by a resolve call on the child, and
  the creation function of that call is not used.
\<close>

lemma createScope_copies:
  assumes "this < length (heap w)"
  shows "\<exists>w'. createScope this w = (length (heap w), w') \<and>
           length (heap w') = Suc (length (heap w)) \<and>
           singletons (heap w' ! length (heap w)) = singletons (heap w ! this) \<and>
           disposers (heap w' ! length (heap w)) = [] \<and>
           (\<forall>c < length (heap w). heap w' ! c = heap w ! c) \<and>
           promises w' = promises w \<and> invoked w' = invoked w \<and> disposed w' = disposed w"
  by (simp add: createScope_def Let_def new_Container_def nth_append)

lemma scope_inherits_truthy:
  assumes "this < length (heap w)" and "singletons (heap w ! this) (key t) = Some c" and "truthy_cell c"
    and "createScope this w = (child, w')"
  shows "resolve child t f opts w' = (c, w')"
  using assms by (auto simp: createScope_def Let_def new_Container_def intro: resolve_cached)

text \<open>
  C7. The claim includes that a token already resolved in the parent resolves in the
  child to the parent's value without invoking the creation function passed to the
  child. The child tests the copied entry with \<open>if (existing)\<close>, as the parent does:
  with the parent's value \<open>0\<close>, \<open>child.resolve(t, () => 5)\<close> starts a creation, its job
  calls the child's creation function, and the child ends with \<open>5\<close> where the parent
  has \<open>0\<close>.
\<close>

theorem scope_falsy_value_created_again:
  "\<exists>w w1 w2 w3 w4.
     run [Resolve 0 \<lparr>key = Symbol 0 ''shared''\<rparr> (Factory 0 (\<lambda>n. Fulfilled (JNum 0))) None, Invoke 0, Settle 0] init_world
       = Some ([Some (CPromise 0), None, None], w) \<and>
     singletons (heap w ! 0) (Symbol 0 ''shared'') = Some (CValue (JNum 0)) \<and>
     createScope 0 w = (1, w1) \<and>
     singletons (heap w1 ! 1) (Symbol 0 ''shared'') = Some (CValue (JNum 0)) \<and>
     resolve 1 \<lparr>key = Symbol 0 ''shared''\<rparr> (Factory 1 (\<lambda>n. Fulfilled (JNum 5))) None w1 = (CPromise 1, w2) \<and>
     invoke 1 w2 = Some w3 \<and> calls w3 1 = 1 \<and>
     settle 1 w3 = Some w4 \<and>
     observe w4 (CPromise 1) = Some (Fulfilled (JNum 5)) \<and>
     singletons (heap w4 ! 1) (Symbol 0 ''shared'') = Some (CValue (JNum 5)) \<and>
     singletons (heap w4 ! 0) (Symbol 0 ''shared'') = Some (CValue (JNum 0))"
  by (simp add: world_defs createScope_def observe_def)

section \<open>Properties of the container with a registration step\<close>

text \<open>
  This class asks \<open>this.resolvedInstances.has(t.key)\<close>: an entry is returned whatever
  the value it stands for. A creation that fails removes its entry and its disposer, and
  the next call starts afresh. Its \<open>disposeAll\<close> calls each dispose function inside
  \<open>Promise.resolve().then(...)\<close>, so that what the function does cannot reach the other
  disposers or the call; when it is over, the disposer list and the cache are empty
  and the registrations are as before.
\<close>

lemma resolve_reg_cached:
  "resolvedInstances (rheap w ! this) (key t) = Some p \<Longrightarrow> resolve_reg this t w = (Inr p, w)"
  by (simp add: resolve_reg_def)

lemma resolve_reg_installs:
  assumes "this < length (rheap w)"
    and "resolvedInstances (rheap w ! this) (key t) = None"
    and "registrations (rheap w ! this) (key t) = Some reg" and "isSingleton reg"
  shows "\<exists>w1 w2. resolve_reg this t w = (Inr (length (rpromises w)), w1) \<and>
           resolvedInstances (rheap w1 ! this) (key t) = Some (length (rpromises w)) \<and>
           factory_of (rpromises w1 ! length (rpromises w)) = factory reg \<and>
           stage_of (rpromises w1 ! length (rpromises w)) = Queued \<and>
           invoke_reg (length (rpromises w)) w1 = Some w2 \<and>
           rinvoked w2 = rinvoked w @ [length (rpromises w)]"
  using assms by (simp add: resolve_reg_def Let_def invoke_reg_def)

lemma settle_reg_failure:
  assumes "p < length (rpromises w)" and "stage_of (rpromises w ! p) = Invoked (Rejected e)"
    and "this_of (rpromises w ! p) = this" and "key_of (rpromises w ! p) = key t"
    and "singleton_of (rpromises w ! p)" and "this < length (rheap w)"
  shows "\<exists>w1. settle_reg p w = Some w1 \<and>
           resolvedInstances (rheap w1 ! this) (key t) = None \<and>
           registrations (rheap w1 ! this) = registrations (rheap w ! this) \<and>
           (\<forall>d. (p, d) \<notin> set (disposers_reg (rheap w1 ! this))) \<and>
           stage_of (rpromises w1 ! p) = Settled (Rejected e)"
  using assms by (auto simp: settle_reg_def Let_def on_error_def)

lemma dispose_job_calls:
  assumes "d < length (disposals w)" and "j < length (jobs (disposals w ! d))"
    and "jobs (disposals w ! d) ! j = (p, fn)" and "stage_of (rpromises w ! p) = Settled (Fulfilled v)"
  shows "\<exists>w'. dispose_job d j w = Some w' \<and> rdisposed w' = rdisposed w @ [(did fn, v)] \<and>
           rheap w' = rheap w \<and>
           jobs (disposals w' ! d) = take j (jobs (disposals w ! d)) @ drop (Suc j) (jobs (disposals w ! d))"
  using assms by (simp add: dispose_job_def Let_def)

lemma dispose_job_rejected:
  assumes "d < length (disposals w)" and "j < length (jobs (disposals w ! d))"
    and "jobs (disposals w ! d) ! j = (p, fn)" and "stage_of (rpromises w ! p) = Settled (Rejected e)"
  shows "\<exists>w'. dispose_job d j w = Some w' \<and> rdisposed w' = rdisposed w \<and> rheap w' = rheap w"
  using assms by (simp add: dispose_job_def Let_def)

lemma dispose_job_keeps:
  assumes "dispose_job d j w = Some w'"
  shows "rheap w' = rheap w \<and> rpromises w' = rpromises w \<and> length (disposals w') = length (disposals w) \<and>
         dthis (disposals w' ! d) = dthis (disposals w ! d) \<and>
         finished (disposals w' ! d) = finished (disposals w ! d) \<and>
         jobs (disposals w' ! d) = take j (jobs (disposals w ! d)) @ drop (Suc j) (jobs (disposals w ! d))"
  using assms
  by (auto simp: dispose_job_def Let_def split: if_splits prod.splits stage.splits outcome.splits)

lemma run_jobs_keeps:
  "run_jobs d n w = Some w' \<Longrightarrow>
   rheap w' = rheap w \<and> rpromises w' = rpromises w \<and> length (disposals w') = length (disposals w) \<and>
   dthis (disposals w' ! d) = dthis (disposals w ! d) \<and>
   finished (disposals w' ! d) = finished (disposals w ! d) \<and>
   jobs (disposals w' ! d) = drop n (jobs (disposals w ! d))"
proof (induction n arbitrary: w)
  case 0
  then show ?case by simp
next
  case (Suc n)
  from Suc.prems obtain w1 where j: "dispose_job d 0 w = Some w1" and r: "run_jobs d n w1 = Some w'"
    by (auto split: option.splits)
  from dispose_job_keeps [OF j] Suc.IH [OF r] show ?case
    by simp
qed

lemma disposeAll_reg_resets:
  assumes "this < length (rheap w)" and "disposeAll_reg this w = Some w'"
  shows "resolvedInstances (rheap w' ! this) = Map.empty \<and> disposers_reg (rheap w' ! this) = [] \<and>
         registrations (rheap w' ! this) = registrations (rheap w ! this)"
proof -
  obtain d w1 where b: "disposeAll_reg_begin this w = (d, w1)" by force
  with assms(2) obtain w2 where j: "run_jobs d (length (jobs (disposals w1 ! d))) w1 = Some w2"
    and r: "disposeAll_reg_resume d w2 = Some w'"
    by (auto simp: disposeAll_reg_def split: option.splits)
  from b assms(1) have w1: "d = length (disposals w)" "dthis (disposals w1 ! d) = this"
    "disposers_reg (rheap w1 ! this) = []" "registrations (rheap w1 ! this) = registrations (rheap w ! this)"
    "length (rheap w1) = length (rheap w)"
    by (auto simp: disposeAll_reg_begin_def Let_def)
  from run_jobs_keeps [OF j] w1 have w2: "rheap w2 = rheap w1" "dthis (disposals w2 ! d) = this" by simp_all
  from r w2 w1 assms(1) show ?thesis
    by (auto simp: disposeAll_reg_resume_def Let_def split: if_splits)
qed

lemma run_jobs_calls_all:
  assumes "d < length (disposals w)"
    and "\<forall>(p, fn) \<in> set (jobs (disposals w ! d)). \<exists>v. stage_of (rpromises w ! p) = Settled (Fulfilled v)"
    and "n = length (jobs (disposals w ! d))"
  shows "\<exists>w'. run_jobs d n w = Some w' \<and>
           rdisposed w' = rdisposed w @
             map (\<lambda>(p, fn). (did fn, value_of (stage_of (rpromises w ! p)))) (jobs (disposals w ! d))"
  using assms
proof (induction n arbitrary: w)
  case 0
  then show ?case by simp
next
  case (Suc n)
  then obtain p fn rest where js: "jobs (disposals w ! d) = (p, fn) # rest"
    by (cases "jobs (disposals w ! d)") auto
  with Suc.prems obtain v where v: "stage_of (rpromises w ! p) = Settled (Fulfilled v)" by auto
  from js have "0 < length (jobs (disposals w ! d))" "jobs (disposals w ! d) ! 0 = (p, fn)" by simp_all
  from dispose_job_calls [OF Suc.prems(1) this v] obtain w1 where
    j: "dispose_job d 0 w = Some w1" and l: "rdisposed w1 = rdisposed w @ [(did fn, v)]"
    and jr: "jobs (disposals w1 ! d) = rest"
    using js by auto
  note k = dispose_job_keeps [OF j]
  have "\<exists>w'. run_jobs d n w1 = Some w' \<and>
           rdisposed w' = rdisposed w1 @
             map (\<lambda>(p, fn). (did fn, value_of (stage_of (rpromises w1 ! p)))) (jobs (disposals w1 ! d))"
  proof (rule Suc.IH)
    show "d < length (disposals w1)" using k Suc.prems(1) by simp
    show "\<forall>(p, fn) \<in> set (jobs (disposals w1 ! d)). \<exists>v. stage_of (rpromises w1 ! p) = Settled (Fulfilled v)"
      using Suc.prems(2) js jr k by simp
    show "n = length (jobs (disposals w1 ! d))" using Suc.prems(3) js jr by simp
  qed
  then obtain w' where "run_jobs d n w1 = Some w'"
    "rdisposed w' = rdisposed w1 @ map (\<lambda>(p, fn). (did fn, value_of (stage_of (rpromises w1 ! p)))) rest"
    using jr by auto
  moreover have "rpromises w1 = rpromises w" using k by simp
  ultimately show ?case using j l js v by simp
qed

lemma disposeAll_reg_calls_all:
  assumes "this < length (rheap w)"
    and "\<forall>(p, fn) \<in> set (disposers_reg (rheap w ! this)). \<exists>v. stage_of (rpromises w ! p) = Settled (Fulfilled v)"
  shows "\<exists>w'. disposeAll_reg this w = Some w' \<and>
           rdisposed w' = rdisposed w @
             map (\<lambda>(p, fn). (did fn, value_of (stage_of (rpromises w ! p)))) (disposers_reg (rheap w ! this))"
proof -
  obtain d w1 where b: "disposeAll_reg_begin this w = (d, w1)" by force
  then have w1: "d < length (disposals w1)" "jobs (disposals w1 ! d) = disposers_reg (rheap w ! this)"
    "rpromises w1 = rpromises w" "rdisposed w1 = rdisposed w" "\<not> finished (disposals w1 ! d)"
    by (auto simp: disposeAll_reg_begin_def Let_def)
  with assms(2) have "\<forall>(p, fn) \<in> set (jobs (disposals w1 ! d)). \<exists>v. stage_of (rpromises w1 ! p) = Settled (Fulfilled v)"
    by simp
  from run_jobs_calls_all [OF w1(1) this refl] obtain w2 where
    j: "run_jobs d (length (jobs (disposals w1 ! d))) w1 = Some w2"
    and l: "rdisposed w2 = rdisposed w1 @
             map (\<lambda>(p, fn). (did fn, value_of (stage_of (rpromises w1 ! p)))) (jobs (disposals w1 ! d))"
    by blast
  note k = run_jobs_keeps [OF j]
  from k w1 have "\<exists>w'. disposeAll_reg_resume d w2 = Some w' \<and> rdisposed w' = rdisposed w2"
    by (simp add: disposeAll_reg_resume_def Let_def)
  with b j l w1 show ?thesis
    by (auto simp: disposeAll_reg_def)
qed

text \<open>
  A scope of this class copies cache and registrations; what the parent has cached the
  child returns, also when the value is \<open>0\<close>.
\<close>

lemma createScope_reg_copies:
  assumes "this < length (rheap w)"
  shows "\<exists>w'. createScope_reg this w = (length (rheap w), w') \<and>
           resolvedInstances (rheap w' ! length (rheap w)) = resolvedInstances (rheap w ! this) \<and>
           registrations (rheap w' ! length (rheap w)) = registrations (rheap w ! this) \<and>
           disposers_reg (rheap w' ! length (rheap w)) = [] \<and>
           (\<forall>c < length (rheap w). rheap w' ! c = rheap w ! c) \<and>
           rpromises w' = rpromises w \<and> rinvoked w' = rinvoked w"
  by (simp add: createScope_reg_def Let_def new_rContainer_def nth_append)

lemma scope_reg_inherits:
  assumes "this < length (rheap w)" and "resolvedInstances (rheap w ! this) (key t) = Some p"
    and "createScope_reg this w = (child, w')"
  shows "resolve_reg child t w' = (Inr p, w')"
  using assms by (auto simp: createScope_reg_def Let_def new_rContainer_def intro: resolve_reg_cached)

lemma registered_zero_is_cached:
  "\<exists>w1 w2 w3. resolve_reg 0 \<lparr>key = Symbol 0 ''zero''\<rparr>
                 (register 0 \<lparr>key = Symbol 0 ''zero''\<rparr> (Factory 0 (\<lambda>n. Fulfilled (JNum 0))) None init_rworld)
               = (Inr 0, w1) \<and>
     invoke_reg 0 w1 = Some w2 \<and> settle_reg 0 w2 = Some w3 \<and>
     stage_of (rpromises w3 ! 0) = Settled (Fulfilled (JNum 0)) \<and>
     resolve_reg 0 \<lparr>key = Symbol 0 ''zero''\<rparr> w3 = (Inr 0, w3) \<and> rinvoked w3 = [0]"
  by (simp add: resolve_reg_def register_def init_rworld_def new_rContainer_def invoke_reg_def
                settle_reg_def rcall_def rcalls_def Let_def)

text \<open>
  C10. \<open>resolve(t)\<close> for a token that has neither a cached instance nor a registration
  ends with the error "No registration found" for the token's description, and the
  state (cache, registrations, disposers, promises) is what it was.
\<close>

theorem resolve_reg_unregistered:
  assumes "resolvedInstances (rheap w ! this) (key t) = None"
    and "registrations (rheap w ! this) (key t) = None"
  shows "resolve_reg this t w =
           (Inl (Error (''DI Container: No registration found for token '' @ [CHR 0x22] @
                        description (key t) @ [CHR 0x22] @ ''.'')), w)"
  using assms by (simp add: resolve_reg_def no_registration_def)

theorem resolve_reg_unregistered_witness:
  "resolve_reg 0 \<lparr>key = Symbol 0 ''db''\<rparr> init_rworld =
     (Inl (Error (''DI Container: No registration found for token '' @ [CHR 0x22] @ ''db'' @ [CHR 0x22] @ ''.'')), init_rworld)"
  using resolve_reg_unregistered [of init_rworld 0 "\<lparr>key = Symbol 0 ''db''\<rparr>"]
  by (simp add: init_rworld_def new_rContainer_def)

section \<open>Properties of tokens\<close>

lemma tokens_keys: "map key (fst (tokens ds n)) = map (\<lambda>(i, d). Symbol i d) (zip [n ..< n + length ds] ds)"
proof (induction ds arbitrary: n)
  case Nil
  then show ?case by simp
next
  case (Cons d ds)
  have "[n ..< n + length (d # ds)] = n # [Suc n ..< Suc n + length ds]"
    by (simp add: upt_rec)
  then show ?case using Cons.IH [of "Suc n"]
    by (simp add: token_def split_beta)
qed

lemma tokens_length: "length (fst (tokens ds n)) = length ds"
  by (induction ds arbitrary: n) (simp_all add: token_def split_beta)

lemma tokens_nth: "i < length ds \<Longrightarrow> key (fst (tokens ds n) ! i) = Symbol (n + i) (ds ! i)"
proof -
  assume i: "i < length ds"
  have "key (fst (tokens ds n) ! i) = map key (fst (tokens ds n)) ! i"
    using i by (simp add: tokens_length)
  also have "\<dots> = Symbol (n + i) (ds ! i)"
    using i by (simp add: tokens_keys)
  finally show ?thesis .
qed

text \<open>
  C8. Two calls of \<open>token\<close>, at different positions of any sequence of calls and with
  whatever labels, give tokens that differ and whose keys differ, and an entry stored
  in a mapping under the key of one is not seen under the key of the other.
\<close>

theorem token_identity:
  "i < length ds \<Longrightarrow> j < length ds \<Longrightarrow> i \<noteq> j \<Longrightarrow>
   fst (tokens ds n) ! i \<noteq> fst (tokens ds n) ! j \<and>
   key (fst (tokens ds n) ! i) \<noteq> key (fst (tokens ds n) ! j) \<and>
   (\<forall>m x. (m(key (fst (tokens ds n) ! i) \<mapsto> x)) (key (fst (tokens ds n) ! j)) = m (key (fst (tokens ds n) ! j)))"
proof -
  assume h: "i < length ds" "j < length ds" "i \<noteq> j"
  then have k: "key (fst (tokens ds n) ! i) \<noteq> key (fst (tokens ds n) ! j)"
    by (simp add: tokens_nth)
  then have "fst (tokens ds n) ! i \<noteq> fst (tokens ds n) ! j"
    by auto
  with k show ?thesis by simp
qed

theorem token_identity_witness:
  "fst (tokens [''dup-descr'', ''dup-descr''] 0) ! 0 \<noteq> fst (tokens [''dup-descr'', ''dup-descr''] 0) ! 1 \<and>
   key (fst (tokens [''dup-descr'', ''dup-descr''] 0) ! 0) = Symbol 0 ''dup-descr'' \<and>
   key (fst (tokens [''dup-descr'', ''dup-descr''] 0) ! 1) = Symbol 1 ''dup-descr''"
  using token_identity [of 0 "[''dup-descr'', ''dup-descr'']" 1 0] by (simp add: token_def)

section \<open>Properties of the environment loader\<close>

text \<open>
  C9. \<open>loadenv\<close> returns what the schema's \<open>parse\<close> makes of the source that was passed,
  or of the process environment when none was passed, and it fails exactly when that
  \<open>parse\<close> fails.
\<close>

theorem loadenv_passes_through:
  "loadenv parse (Some src) penv = parse src \<and>
   loadenv parse None penv = parse penv \<and>
   ((\<exists>e. loadenv parse envSource penv = Inl e) =
      (\<exists>e. parse (case envSource of Some src \<Rightarrow> src | None \<Rightarrow> penv) = Inl e))"
  by (simp add: loadenv_def)

end
